theory Spec2Isabelle
  imports Main "HOL-Library.Char_ord" "HOL-Library.List_Lexorder" "HOL-Library.Multiset"
begin

section \<open>Repository discovery of the multi-tenant chart server\<close>

text \<open>
  A shallow embedding of \<^verbatim>\<open>pkg/chartmuseum/server/multitenant/handlers_repos.go\<close>:
  the handler of \<^verbatim>\<open>GET /api/repositories\<close>, the two discoverers it calls and the
  feature flag in front of them.

  Go strings are byte sequences and so is \<^typ>\<open>string\<close>; the order on strings
  (\<^verbatim>\<open>sort.Strings\<close>) is the bytewise lexicographic one, which is the order of
  \<open>Char_ord\<close> lifted by \<open>List_Lexorder\<close>.

  The operating system and the storage backend are arguments of the model: a record of
  what \<^verbatim>\<open>os.Getenv\<close>, \<^verbatim>\<open>os.Stat\<close>, \<^verbatim>\<open>os.ReadDir\<close> and
  \<^verbatim>\<open>filepath.Glob\<close> answer during the request, and the \<^verbatim>\<open>ListObjects\<close> of the
  backend. Every function that calls them returns, beside its result, the list of the calls
  it made, so that "no storage listing is attempted" is a statement about that list.
\<close>

subsection \<open>The functions of package strings that the code calls\<close>

text \<open>\<^verbatim>\<open>strings.TrimLeft(s, cutset)\<close>: \<open>s\<close> without its leading bytes that are in
  \<open>cutset\<close> (the cutset of the code is the one ASCII byte \<^verbatim>\<open>/\<close>).\<close>

definition strings_TrimLeft :: "string \<Rightarrow> string \<Rightarrow> string" where
  "strings_TrimLeft s cutset = dropWhile (\<lambda>c. c \<in> set cutset) s"

text \<open>\<^verbatim>\<open>strings.Index(s, substr)\<close>: the index of the first instance of \<open>substr\<close> in
  \<open>s\<close>, or \<open>-1\<close> when there is none.\<close>

fun strings_Index :: "string \<Rightarrow> string \<Rightarrow> int" where
  "strings_Index [] substr = (if substr = [] then 0 else - 1)"
| "strings_Index (c # cs) substr =
     (if take (length substr) (c # cs) = substr then 0
      else (let i = strings_Index cs substr in if i < 0 then - 1 else i + 1))"

text \<open>\<^verbatim>\<open>strings.IndexByte(s, b)\<close>: the index of the first byte \<open>b\<close> of \<open>s\<close>, or
  \<open>-1\<close>.\<close>

fun strings_IndexByte :: "string \<Rightarrow> char \<Rightarrow> int" where
  "strings_IndexByte [] b = - 1"
| "strings_IndexByte (c # cs) b =
     (if c = b then 0
      else (let i = strings_IndexByte cs b in if i < 0 then - 1 else i + 1))"

text \<open>\<^verbatim>\<open>sort.Strings\<close> sorts in increasing order. Equal strings cannot be told apart,
  so the result is the one sorted arrangement of the input.\<close>

definition sort_Strings :: "string list \<Rightarrow> string list" where
  "sort_Strings names = sort names"

subsection \<open>Maps used as sets, and the order in which Go ranges over them\<close>

text \<open>
  \<^verbatim>\<open>map[string]struct{}\<close> is modelled by the list of its keys, without repetition.
  \<^verbatim>\<open>set[k] = struct{}{}\<close> is \<open>set_put\<close>.
\<close>

type_synonym strset = "string list"

definition set_put :: "string \<Rightarrow> strset \<Rightarrow> strset" where
  "set_put k st = (if k \<in> set st then st else st @ [k])"

text \<open>
  The order of \<^verbatim>\<open>for k := range set\<close> is chosen by the Go runtime and changes from
  one loop to the next. The model takes the runtime's choices as a list of numbers: each
  number picks, among the keys not yet visited, the next one. Every order of the keys is
  the result of some choice list (lemma \<open>range_order_any\<close> below).
\<close>

fun range_order :: "nat list \<Rightarrow> 'a list \<Rightarrow> 'a list" where
  "range_order choices [] = []"
| "range_order [] (k # ks) = k # ks"
| "range_order (c # cs) (k # ks) =
     (let i = c mod length (k # ks)
      in (k # ks) ! i # range_order cs (take i (k # ks) @ drop (Suc i) (k # ks)))"

subsection \<open>The world outside the handler\<close>

text \<open>A Go \<^verbatim>\<open>error\<close> value, with the message its \<^verbatim>\<open>Error()\<close> method returns.\<close>

datatype error = Err (Error: string)

text \<open>\<^verbatim>\<open>storage.Object\<close>: only its \<^verbatim>\<open>Path\<close> is read.\<close>

record Object =
  Path :: string

text \<open>\<^verbatim>\<open>os.FileInfo\<close> and \<^verbatim>\<open>os.DirEntry\<close>, with the methods the code calls.\<close>

record FileInfo =
  fi_IsDir :: bool

record DirEntry =
  Name :: string
  IsDir :: bool

text \<open>\<^verbatim>\<open>MultiTenantServer\<close>: the handler reads its storage backend only, through
  \<^verbatim>\<open>ListObjects(prefix)\<close>.\<close>

record MultiTenantServer =
  StorageBackend_ListObjects :: "string \<Rightarrow> error + Object list"

text \<open>
  The process environment during one request: the environment variables, the file system
  as \<^verbatim>\<open>os.Stat\<close>, \<^verbatim>\<open>os.ReadDir\<close> and \<^verbatim>\<open>filepath.Glob\<close> show it, and
  the runtime's choices for the order of a range over a map. \<^verbatim>\<open>Getenv\<close> returns the
  empty string for a variable that is not set. \<^verbatim>\<open>Glob\<close> returns its matches and its
  error together, as in Go.
\<close>

record env =
  os_Getenv :: "string \<Rightarrow> string"
  os_Stat :: "string \<Rightarrow> error + FileInfo"
  os_ReadDir :: "string \<Rightarrow> error + DirEntry list"
  filepath_Glob :: "string \<Rightarrow> string list \<times> error option"
  map_choices :: "nat list"

text \<open>The calls a request makes to the world outside, in the order they are made.\<close>

datatype call =
    CallGetenv string
  | CallStat string
  | CallReadDir string
  | CallGlob string
  | CallListObjects string

subsection \<open>\<^verbatim>\<open>filepath.Join\<close> on a Unix path\<close>

text \<open>
  \<^verbatim>\<open>filepath.Join\<close> ignores the leading empty elements, joins the rest with the
  separator and cleans the result; \<^verbatim>\<open>filepath.Clean\<close> drops empty and \<^verbatim>\<open>.\<close>
  elements, lets a \<^verbatim>\<open>..\<close> element remove the element before it (or drops it at the
  root), and returns \<^verbatim>\<open>.\<close> for an empty result.
\<close>

fun split_sep :: "string \<Rightarrow> string list" where
  "split_sep [] = [[]]"
| "split_sep (c # cs) =
     (if c = CHR ''/'' then [] # split_sep cs
      else (case split_sep cs of [] \<Rightarrow> [[c]] | e # es \<Rightarrow> (c # e) # es))"

fun clean_elems :: "bool \<Rightarrow> string list \<Rightarrow> string list \<Rightarrow> string list" where
  "clean_elems rooted out [] = rev out"
| "clean_elems rooted out (e # es) =
     (if e = [] \<or> e = ''.'' then clean_elems rooted out es
      else if e = ''..'' then
        (case out of
           [] \<Rightarrow> if rooted then clean_elems rooted [] es else clean_elems rooted [''..''] es
         | t # ts \<Rightarrow>
             if t = ''..'' then clean_elems rooted (''..'' # t # ts) es
             else clean_elems rooted ts es)
      else clean_elems rooted (e # out) es)"

fun join_sep :: "string list \<Rightarrow> string" where
  "join_sep [] = []"
| "join_sep [e] = e"
| "join_sep (e # es) = e @ ''/'' @ join_sep es"

definition filepath_Clean :: "string \<Rightarrow> string" where
  "filepath_Clean path =
     (if path = [] then ''.''
      else
        let rooted = (hd path = CHR ''/'');
            out = (if rooted then ''/'' else []) @ join_sep (clean_elems rooted [] (split_sep path))
        in if out = [] then ''.'' else out)"

definition filepath_Join :: "string list \<Rightarrow> string" where
  "filepath_Join elem =
     (case dropWhile (\<lambda>e. e = []) elem of
        [] \<Rightarrow> []
      | e # es \<Rightarrow> filepath_Clean (join_sep (e # es)))"

subsection \<open>The Local-Tree Discoverer\<close>

text \<open>The loop over the two patterns of one directory: the first pattern with a match
  puts the directory's name into the set and ends the loop.\<close>

fun glob_loop :: "env \<Rightarrow> string \<Rightarrow> string list \<Rightarrow> strset \<Rightarrow> strset \<times> call list" where
  "glob_loop E repo [] st = (st, [])"
| "glob_loop E repo (g # gs) st =
     (let (matches, err) = filepath_Glob E g in
      if length matches > 0 then (set_put repo st, [CallGlob g])
      else (let (st', cs) = glob_loop E repo gs st in (st', CallGlob g # cs)))"

text \<open>The loop over the entries of the root directory.\<close>

fun entries_loop :: "env \<Rightarrow> string \<Rightarrow> DirEntry list \<Rightarrow> strset \<Rightarrow> strset \<times> call list" where
  "entries_loop E root [] st = (st, [])"
| "entries_loop E root (e # es) st =
     (if \<not> IsDir e then entries_loop E root es st
      else
        let repo = Name e;
            globs = [filepath_Join [root, repo, ''charts'', ''*.tgz''],
                     filepath_Join [root, repo, ''*.tgz'']];
            (st1, cs1) = glob_loop E repo globs st;
            (st2, cs2) = entries_loop E root es st1
        in (st2, cs1 @ cs2))"

text \<open>\<^verbatim>\<open>discoverReposLocalFS\<close> returns \<^verbatim>\<open>(names, ok)\<close>; \<^verbatim>\<open>nil\<close> is the empty
  list.\<close>

definition discoverReposLocalFS :: "env \<Rightarrow> (string list \<times> bool) \<times> call list" where
  "discoverReposLocalFS E =
     (let root = os_Getenv E ''STORAGE_LOCAL_ROOTDIR'' in
      if root = [] then (([], False), [CallGetenv ''STORAGE_LOCAL_ROOTDIR''])
      else
        (case os_Stat E root of
           Inl err \<Rightarrow> (([], False), [CallGetenv ''STORAGE_LOCAL_ROOTDIR'', CallStat root])
         | Inr fi \<Rightarrow>
             if \<not> fi_IsDir fi
             then (([], False), [CallGetenv ''STORAGE_LOCAL_ROOTDIR'', CallStat root])
             else
               (case os_ReadDir E root of
                  Inl err \<Rightarrow>
                    (([], False),
                     [CallGetenv ''STORAGE_LOCAL_ROOTDIR'', CallStat root, CallReadDir root])
                | Inr entries \<Rightarrow>
                    (let (st, cs) = entries_loop E root entries [];
                         tr = [CallGetenv ''STORAGE_LOCAL_ROOTDIR'', CallStat root,
                               CallReadDir root] @ cs
                     in if length st = 0 then (([], False), tr)
                        else
                          (let names = range_order (map_choices E) st
                           in ((sort_Strings names, True), tr))))))"

subsection \<open>The Generic Object Discoverer\<close>

text \<open>The body of the loop over the listed objects: what one object does to the set.\<close>

definition storage_step :: "strset \<Rightarrow> Object \<Rightarrow> strset" where
  "storage_step st o1 =
     (let p = strings_TrimLeft (Path o1) ''/'' in
      if p = [] then st
      else
        let idx = strings_Index p ''/charts/'' in
        if idx > 0 then
          (let repo = take (nat idx) p in
           if repo \<noteq> [] then set_put repo st else st)
        else
          let i = strings_IndexByte p (CHR ''/'') in
          if i > 0 then set_put (take (nat i) p) st else st)"

fun storage_loop :: "strset \<Rightarrow> Object list \<Rightarrow> strset" where
  "storage_loop st [] = st"
| "storage_loop st (o1 # objs) = storage_loop (storage_step st o1) objs"

definition discoverReposFromStorage ::
    "MultiTenantServer \<Rightarrow> env \<Rightarrow> string \<Rightarrow> (error + string list) \<times> call list" where
  "discoverReposFromStorage s E prefix =
     (case StorageBackend_ListObjects s prefix of
        Inl err \<Rightarrow> (Inl err, [CallListObjects prefix])
      | Inr objs \<Rightarrow>
          (let st = storage_loop [] objs;
               names = range_order (map_choices E) st
           in (Inr (sort_Strings names), [CallListObjects prefix])))"

subsection \<open>The Access Gate and the handler\<close>

text \<open>The feature flag: \<^verbatim>\<open>func (s *MultiTenantServer) allowListRepos() bool { return true }\<close>.\<close>

definition allowListRepos :: "MultiTenantServer \<Rightarrow> bool" where
  "allowListRepos s = True"

text \<open>What \<^verbatim>\<open>c.JSON(status, body)\<close> writes: a status and either an array of names or
  the object \<^verbatim>\<open>{"error": message}\<close>.\<close>

datatype body = Names "string list" | ErrorObject string

datatype response = Response (status: nat) (body: body)

definition StatusOK :: nat where "StatusOK = 200"
definition StatusForbidden :: nat where "StatusForbidden = 403"
definition StatusInternalServerError :: nat where "StatusInternalServerError = 500"

text \<open>The body of \<^verbatim>\<open>listRepositoriesHandler\<close>, with the answer of the Access Gate as
  its first argument, and the handler itself, which asks \<open>allowListRepos\<close>.\<close>

definition listRepositories :: "bool \<Rightarrow> MultiTenantServer \<Rightarrow> env \<Rightarrow> response \<times> call list" where
  "listRepositories allow s E =
     (if \<not> allow
      then (Response StatusForbidden (ErrorObject ''listing repositories is disabled''), [])
      else
        (case discoverReposLocalFS E of
           ((names, ok), cs1) \<Rightarrow>
             if ok then (Response StatusOK (Names names), cs1)
             else
               (case discoverReposFromStorage s E [] of
                  (Inl err, cs2) \<Rightarrow>
                    (Response StatusInternalServerError (ErrorObject (Error err)), cs1 @ cs2)
                | (Inr names, cs2) \<Rightarrow> (Response StatusOK (Names names), cs1 @ cs2))))"

definition listRepositoriesHandler :: "MultiTenantServer \<Rightarrow> env \<Rightarrow> response \<times> call list" where
  "listRepositoriesHandler s E = listRepositories (allowListRepos s) s E"

subsection \<open>The layout heuristics, as the specification words them\<close>

text \<open>\<open>sub\<close> stands in \<open>s\<close> at position \<open>i\<close>.\<close>

definition occurs_at :: "string \<Rightarrow> string \<Rightarrow> nat \<Rightarrow> bool" where
  "occurs_at sub s i = (take (length sub) (drop i s) = sub)"

text \<open>
  The Repository Name of a path, following the specification: strip the leading slashes;
  an empty path has no name; if \<^verbatim>\<open>/charts/\<close> stands at a position greater than zero,
  the name is what is before it (before the first such position); otherwise, if a
  \<^verbatim>\<open>/\<close> stands at a position greater than zero, the name is the segment before the
  first one; otherwise there is no name.
\<close>

definition inferred_name :: "string \<Rightarrow> string option" where
  "inferred_name path =
     (let p = dropWhile (\<lambda>c. c = CHR ''/'') path in
      if p = [] then None
      else
        (case find (occurs_at ''/charts/'' p) [1..<length p] of
           Some i \<Rightarrow> Some (take i p)
         | None \<Rightarrow>
             (case find (\<lambda>i. p ! i = CHR ''/'') [1..<length p] of
                Some i \<Rightarrow> Some (take i p)
              | None \<Rightarrow> None)))"

definition inferred_names :: "Object list \<Rightarrow> string set" where
  "inferred_names objs = {n. \<exists>o1 \<in> set objs. inferred_name (Path o1) = Some n}"

subsection \<open>The test that the Local-Tree Discoverer applies to a directory\<close>

text \<open>
  The condition under which the loop of \<^verbatim>\<open>discoverReposLocalFS\<close> puts the name \<open>d\<close>
  of a directory entry into its set: \<^verbatim>\<open>filepath.Glob\<close> returns a match for one of the
  two patterns that the code joins from the root, \<open>d\<close> and \<^verbatim>\<open>*.tgz\<close>. This is the
  answer of \<^verbatim>\<open>Glob\<close> on a pattern in which the characters of \<open>d\<close> are pattern syntax
  too; it says nothing by itself about what the directory \<open>d\<close> contains (see
  \<open>holds_archive\<close> and the stores \<open>star_env\<close> and \<open>bracket_env\<close> below).
\<close>

definition qualifies :: "env \<Rightarrow> string \<Rightarrow> string \<Rightarrow> bool" where
  "qualifies E root d =
     (fst (filepath_Glob E (filepath_Join [root, d, ''charts'', ''*.tgz''])) \<noteq> [] \<or>
      fst (filepath_Glob E (filepath_Join [root, d, ''*.tgz''])) \<noteq> [])"

definition qualifying_dirs :: "env \<Rightarrow> string \<Rightarrow> DirEntry list \<Rightarrow> string set" where
  "qualifying_dirs E root entries =
     {Name e | e. e \<in> set entries \<and> IsDir e \<and> qualifies E root (Name e)}"

subsection \<open>The content of a local store, as the specification words it\<close>

text \<open>
  What the specification asks of a child directory \<open>d\<close> of the root: \<open>d\<close> contains
  an archive, a file whose name ends in \<^verbatim>\<open>.tgz\<close>, under \<^verbatim>\<open>d/charts/\<close> or directly
  under \<^verbatim>\<open>d/\<close>. The content of a store is given by the paths of its files.
\<close>

definition is_archive_in :: "string \<Rightarrow> string \<Rightarrow> bool" where
  "is_archive_in dir f =
     (let n = length dir + 1; base = drop n f in
      take n f = dir @ ''/'' \<and> CHR ''/'' \<notin> set base \<and>
      4 \<le> length base \<and> drop (length base - 4) base = ''.tgz'')"

definition holds_archive :: "string list \<Rightarrow> string \<Rightarrow> string \<Rightarrow> bool" where
  "holds_archive files root d =
     (\<exists>f \<in> set files.
        is_archive_in (root @ ''/'' @ d @ ''/charts'') f \<or> is_archive_in (root @ ''/'' @ d) f)"

subsection \<open>Example stores\<close>

text \<open>
  A local store as the seeding script lays it out, mounted at \<^verbatim>\<open>/charts\<close>:
  \<^verbatim>\<open>repoA/charts/webapp-0.1.0.tgz\<close>, \<^verbatim>\<open>repoB/api-1.0.0.tgz\<close>, a directory
  without archives and a plain file.
\<close>

definition seeded_env :: env where
  "seeded_env =
     \<lparr>os_Getenv = (\<lambda>v. if v = ''STORAGE_LOCAL_ROOTDIR'' then ''/charts''
                        else if v = ''ENABLE_LIST_REPOS'' then ''true'' else []),
      os_Stat = (\<lambda>p. if p = ''/charts'' then Inr \<lparr>fi_IsDir = True\<rparr>
                      else Inl (Err ''no such file or directory'')),
      os_ReadDir = (\<lambda>p. if p = ''/charts''
                         then Inr [\<lparr>Name = ''README.md'', IsDir = False\<rparr>,
                                   \<lparr>Name = ''empty'', IsDir = True\<rparr>,
                                   \<lparr>Name = ''repoA'', IsDir = True\<rparr>,
                                   \<lparr>Name = ''repoB'', IsDir = True\<rparr>]
                         else Inl (Err ''no such file or directory'')),
      filepath_Glob = (\<lambda>g. if g = ''/charts/repoA/charts/*.tgz''
                              then ([''/charts/repoA/charts/webapp-0.1.0.tgz''], None)
                            else if g = ''/charts/repoB/*.tgz''
                              then ([''/charts/repoB/api-1.0.0.tgz''], None)
                            else ([], None)),
      map_choices = [1, 0]\<rparr>"

text \<open>An object store with the three objects of the specification's scenario and a
  second object of \<^verbatim>\<open>t1\<close> behind a leading slash, and a store whose listing fails.\<close>

definition object_server :: MultiTenantServer where
  "object_server =
     \<lparr>StorageBackend_ListObjects =
        (\<lambda>prefix. Inr [\<lparr>Path = ''t2/b.tgz''\<rparr>, \<lparr>Path = ''t1/charts/a.tgz''\<rparr>,
                        \<lparr>Path = ''noslash''\<rparr>, \<lparr>Path = ''/t1/charts/c.tgz''\<rparr>])\<rparr>"

definition failing_server :: MultiTenantServer where
  "failing_server =
     \<lparr>StorageBackend_ListObjects = (\<lambda>prefix. Inl (Err ''connection refused''))\<rparr>"

text \<open>
  A store at \<^verbatim>\<open>/r\<close> with an empty directory named \<^verbatim>\<open>a*\<close> beside the directory
  \<^verbatim>\<open>ab\<close>, which holds \<^verbatim>\<open>x.tgz\<close>. In the pattern \<^verbatim>\<open>/r/a*/*.tgz\<close> that the
  code builds for the first directory the star is pattern syntax (any sequence of characters
  other than the separator), so \<^verbatim>\<open>filepath.Glob\<close> searches every directory of
  \<^verbatim>\<open>/r\<close> whose name starts with \<^verbatim>\<open>a\<close> and returns the archive of \<^verbatim>\<open>ab\<close>.
  There is no directory \<^verbatim>\<open>charts\<close>, so the patterns through \<^verbatim>\<open>charts\<close> have no
  match.
\<close>

definition star_files :: "string list" where
  "star_files = [''/r/ab/x.tgz'']"

definition star_env :: env where
  "star_env =
     \<lparr>os_Getenv = (\<lambda>v. if v = ''STORAGE_LOCAL_ROOTDIR'' then ''/r'' else []),
      os_Stat = (\<lambda>p. if p = ''/r'' then Inr \<lparr>fi_IsDir = True\<rparr>
                      else Inl (Err ''no such file or directory'')),
      os_ReadDir = (\<lambda>p. if p = ''/r''
                         then Inr [\<lparr>Name = ''a*'', IsDir = True\<rparr>,
                                   \<lparr>Name = ''ab'', IsDir = True\<rparr>]
                         else Inl (Err ''no such file or directory'')),
      filepath_Glob = (\<lambda>g. if g = ''/r/a*/*.tgz'' \<or> g = ''/r/ab/*.tgz''
                              then ([''/r/ab/x.tgz''], None)
                            else ([], None)),
      map_choices = []\<rparr>"

text \<open>
  A store at \<^verbatim>\<open>/r\<close> with a directory named \<^verbatim>\<open>[x\<close>, which holds \<^verbatim>\<open>a.tgz\<close>,
  beside the directory \<^verbatim>\<open>ok\<close>, which holds \<^verbatim>\<open>b.tgz\<close>. In the patterns that the
  code builds for the first directory the bracket opens a character class that is never
  closed: \<^verbatim>\<open>filepath.Glob\<close> returns no match and \<^verbatim>\<open>ErrBadPattern\<close>, and the code
  drops the error.
\<close>

definition bracket_files :: "string list" where
  "bracket_files = [''/r/[x/a.tgz'', ''/r/ok/b.tgz'']"

definition bracket_env :: env where
  "bracket_env =
     \<lparr>os_Getenv = (\<lambda>v. if v = ''STORAGE_LOCAL_ROOTDIR'' then ''/r'' else []),
      os_Stat = (\<lambda>p. if p = ''/r'' then Inr \<lparr>fi_IsDir = True\<rparr>
                      else Inl (Err ''no such file or directory'')),
      os_ReadDir = (\<lambda>p. if p = ''/r''
                         then Inr [\<lparr>Name = ''[x'', IsDir = True\<rparr>,
                                   \<lparr>Name = ''ok'', IsDir = True\<rparr>]
                         else Inl (Err ''no such file or directory'')),
      filepath_Glob = (\<lambda>g. if g = ''/r/[x/charts/*.tgz'' \<or> g = ''/r/[x/*.tgz''
                              then ([], Some (Err ''syntax error in pattern''))
                            else if g = ''/r/ok/*.tgz'' then ([''/r/ok/b.tgz''], None)
                            else ([], None)),
      map_choices = []\<rparr>"

section \<open>Properties\<close>

subsection \<open>Sets, range order and sorting\<close>

lemma set_set_put: "set (set_put k st) = insert k (set st)"
  by (auto simp: set_put_def)

lemma distinct_set_put: "distinct st \<Longrightarrow> distinct (set_put k st)"
  by (simp add: set_put_def)

lemma mset_range_order: "mset (range_order cs ks) = mset ks"
proof (induction cs ks rule: range_order.induct)
  case (3 c cs k ks)
  let ?xs = "k # ks"
  let ?i = "c mod length ?xs"
  have i: "?i < length ?xs" by simp
  have "mset ?xs = mset (take ?i ?xs @ ?xs ! ?i # drop (Suc ?i) ?xs)"
    using id_take_nth_drop[OF i] by metis
  then show ?case using 3 by (simp add: Let_def)
qed simp_all

lemma range_order_any: "mset ys = mset ks \<Longrightarrow> \<exists>cs. range_order cs ks = ys"
proof (induction ys arbitrary: ks)
  case Nil
  then show ?case by simp
next
  case (Cons y ys)
  then have "y \<in> set ks" by (metis list.set_intros(1) set_mset_mset)
  then obtain i where i: "i < length ks" "ks ! i = y" by (auto simp: in_set_conv_nth)
  then obtain k ks' where ks: "ks = k # ks'" by (cases ks) auto
  let ?rest = "take i ks @ drop (Suc i) ks"
  have "mset ks = mset (take i ks @ ks ! i # drop (Suc i) ks)"
    using id_take_nth_drop[OF i(1)] by metis
  then have "mset ys = mset ?rest" using Cons.prems i by simp
  then obtain cs where cs: "range_order cs ?rest = ys" using Cons.IH by blast
  have "range_order (i # cs) ks = y # ys"
    using i cs unfolding ks by (simp add: Let_def)
  then show ?case by blast
qed

lemma sort_Strings_perm: "mset xs = mset ys \<Longrightarrow> sort_Strings xs = sort_Strings ys"
  unfolding sort_Strings_def by (simp add: properties_for_sort)

lemma sorted_sort_Strings: "sorted (sort_Strings xs)"
  by (simp add: sort_Strings_def)

lemma set_sort_Strings: "set (sort_Strings xs) = set xs"
  by (simp add: sort_Strings_def)

lemma distinct_sort_Strings: "distinct (sort_Strings xs) = distinct xs"
  by (simp add: sort_Strings_def)

lemma sort_range_order: "sort_Strings (range_order cs ks) = sort_Strings ks"
  by (rule sort_Strings_perm) (rule mset_range_order)

lemma sort_Strings_canonical: "distinct ks \<Longrightarrow> sort_Strings ks = sorted_list_of_set (set ks)"
  unfolding sort_Strings_def
  by (simp add: sorted_list_of_set_sort_remdups distinct_remdups_id)

subsection \<open>Searching a string\<close>

lemma occurs_at_0: "occurs_at sub s 0 = (take (length sub) s = sub)"
  by (simp add: occurs_at_def)

lemma occurs_at_Suc: "occurs_at sub (c # cs) (Suc i) = occurs_at sub cs i"
  by (simp add: occurs_at_def)

lemma occurs_at_bound:
  assumes "occurs_at sub s i" "sub \<noteq> []"
  shows "i < length s"
proof (rule ccontr)
  assume "\<not> i < length s"
  then have "drop i s = []" by simp
  with assms show False by (simp add: occurs_at_def)
qed

lemma occurs_at_split:
  assumes "sub \<noteq> []"
  shows "occurs_at sub s i \<longleftrightarrow> (\<exists>u v. s = u @ sub @ v \<and> length u = i)"
proof
  assume o: "occurs_at sub s i"
  then have i: "i < length s" using assms by (rule occurs_at_bound)
  have "s = take i s @ drop i s" by simp
  also have "drop i s = take (length sub) (drop i s) @ drop (length sub) (drop i s)"
    by (rule append_take_drop_id[symmetric])
  also have "take (length sub) (drop i s) = sub" using o by (simp add: occurs_at_def)
  finally have "s = take i s @ sub @ drop (length sub) (drop i s)" .
  moreover have "length (take i s) = i" using i by simp
  ultimately show "\<exists>u v. s = u @ sub @ v \<and> length u = i" by blast
next
  assume "\<exists>u v. s = u @ sub @ v \<and> length u = i"
  then show "occurs_at sub s i" by (auto simp: occurs_at_def)
qed

lemma occurs_at_take:
  assumes "occurs_at sub (take k p) j" "sub \<noteq> []"
  shows "occurs_at sub p j \<and> j < k"
proof -
  from assms obtain u v where uv: "take k p = u @ sub @ v" "length u = j"
    by (auto simp: occurs_at_split)
  have "p = take k p @ drop k p" by simp
  then have "p = u @ sub @ (v @ drop k p)" using uv by (metis append.assoc)
  then have "occurs_at sub p j" using uv(2) assms(2) occurs_at_split by blast
  moreover have "j < k" using occurs_at_bound[OF assms] by simp
  ultimately show ?thesis ..
qed

lemma find_append:
  "find P (xs @ ys) = (case find P xs of None \<Rightarrow> find P ys | Some x \<Rightarrow> Some x)"
  by (induction xs) auto

lemma find_upt_None:
  "find P [m..<n] = None \<longleftrightarrow> (\<forall>j. m \<le> j \<and> j < n \<longrightarrow> \<not> P j)"
  by (auto simp: find_None_iff)

lemma find_upt_Some:
  "find P [m..<n] = Some i \<longleftrightarrow> m \<le> i \<and> i < n \<and> P i \<and> (\<forall>j. m \<le> j \<and> j < i \<longrightarrow> \<not> P j)"
proof
  assume "find P [m..<n] = Some i"
  then obtain k where k: "k < n - m" "P ([m..<n] ! k)" "i = [m..<n] ! k"
      "\<forall>j<k. \<not> P ([m..<n] ! j)"
    by (auto simp: find_Some_iff)
  have ik: "i = m + k" using k(1,3) by simp
  have "\<not> P j" if "m \<le> j" "j < i" for j
  proof -
    have "j - m < k" using that ik by arith
    then have "\<not> P ([m..<n] ! (j - m))" using k(4) by blast
    moreover have "[m..<n] ! (j - m) = j" using that ik k(1) by simp
    ultimately show ?thesis by simp
  qed
  then show "m \<le> i \<and> i < n \<and> P i \<and> (\<forall>j. m \<le> j \<and> j < i \<longrightarrow> \<not> P j)"
    using k ik by auto
next
  assume a: "m \<le> i \<and> i < n \<and> P i \<and> (\<forall>j. m \<le> j \<and> j < i \<longrightarrow> \<not> P j)"
  have "i - m < length [m..<n]" using a by auto
  moreover have "[m..<n] ! (i - m) = i" using a by simp
  moreover have "\<not> P ([m..<n] ! j)" if "j < i - m" for j
  proof -
    have "m + j < i" using that by arith
    moreover have "m + j < n" using that a by arith
    then have "[m..<n] ! j = m + j" by simp
    ultimately show ?thesis using a by simp
  qed
  ultimately have "\<exists>k<length [m..<n]. P ([m..<n] ! k) \<and> i = [m..<n] ! k \<and>
      (\<forall>j<k. \<not> P ([m..<n] ! j))"
    using a by (intro exI[of _ "i - m"]) simp
  then show "find P [m..<n] = Some i"
    unfolding find_Some_iff .
qed

lemma dropWhile_slash_hd:
  "dropWhile (\<lambda>c. c = CHR ''/'') path \<noteq> [] \<Longrightarrow>
     hd (dropWhile (\<lambda>c. c = CHR ''/'') path) \<noteq> CHR ''/''"
  using hd_dropWhile[of "\<lambda>c. c = CHR ''/''" path] by simp

lemma TrimLeft_slash: "strings_TrimLeft s ''/'' = dropWhile (\<lambda>c. c = CHR ''/'') s"
  by (simp add: strings_TrimLeft_def)

lemma Index_nonneg: "strings_Index s sub = - 1 \<or> 0 \<le> strings_Index s sub"
  by (induction s) (auto simp: Let_def)

lemma Index_found:
  "0 \<le> strings_Index s sub \<Longrightarrow>
     occurs_at sub s (nat (strings_Index s sub)) \<and> (\<forall>j < nat (strings_Index s sub). \<not> occurs_at sub s j)"
proof (induction s)
  case Nil
  then show ?case by (auto simp: occurs_at_def split: if_splits)
next
  case (Cons c cs)
  show ?case
  proof (cases "take (length sub) (c # cs) = sub")
    case True
    then show ?thesis by (simp add: occurs_at_0)
  next
    case False
    with Cons.prems have nn: "0 \<le> strings_Index cs sub"
      by (auto simp: Let_def split: if_splits)
    with False have eq: "strings_Index (c # cs) sub = strings_Index cs sub + 1"
      by (simp add: Let_def)
    have n: "nat (strings_Index cs sub + 1) = Suc (nat (strings_Index cs sub))"
      using nn by simp
    from Cons.IH[OF nn] False show ?thesis
      unfolding eq n
      by (auto simp: occurs_at_Suc occurs_at_0 less_Suc_eq_0_disj)
  qed
qed

lemma Index_missing:
  "strings_Index s sub < 0 \<Longrightarrow> \<not> occurs_at sub s j"
proof (induction s arbitrary: j)
  case Nil
  then show ?case by (auto simp: occurs_at_def split: if_splits)
next
  case (Cons c cs)
  then have a: "take (length sub) (c # cs) \<noteq> sub" and b: "strings_Index cs sub < 0"
    by (auto simp: Let_def split: if_splits)
  show ?case
  proof (cases j)
    case 0
    then show ?thesis using a by (simp add: occurs_at_0)
  next
    case (Suc k)
    then show ?thesis using Cons.IH[OF b] by (simp add: occurs_at_Suc)
  qed
qed

lemma IndexByte_found:
  "0 \<le> strings_IndexByte s b \<Longrightarrow>
     nat (strings_IndexByte s b) < length s \<and> s ! nat (strings_IndexByte s b) = b \<and>
     (\<forall>j < nat (strings_IndexByte s b). s ! j \<noteq> b)"
proof (induction s)
  case Nil
  then show ?case by simp
next
  case (Cons c cs)
  show ?case
  proof (cases "c = b")
    case True
    then show ?thesis by simp
  next
    case False
    with Cons.prems have nn: "0 \<le> strings_IndexByte cs b"
      by (auto simp: Let_def split: if_splits)
    with False have eq: "strings_IndexByte (c # cs) b = strings_IndexByte cs b + 1"
      by (simp add: Let_def)
    have n: "nat (strings_IndexByte cs b + 1) = Suc (nat (strings_IndexByte cs b))"
      using nn by simp
    from Cons.IH[OF nn] False show ?thesis
      unfolding eq n by (auto simp: nth_Cons')
  qed
qed

lemma IndexByte_missing: "strings_IndexByte s b < 0 \<Longrightarrow> b \<notin> set s"
  by (induction s) (auto simp: Let_def split: if_splits)

lemma find_charts:
  assumes p: "p \<noteq> []" "hd p \<noteq> CHR ''/''"
  shows "find (occurs_at ''/charts/'' p) [1..<length p] =
           (if strings_Index p ''/charts/'' > 0 then Some (nat (strings_Index p ''/charts/'')) else None)"
proof -
  let ?idx = "strings_Index p ''/charts/''"
  have not0: "\<not> occurs_at ''/charts/'' p 0"
    using p by (cases p) (auto simp: occurs_at_def)
  show ?thesis
  proof (cases "0 \<le> ?idx")
    case True
    from Index_found[OF True] have f: "occurs_at ''/charts/'' p (nat ?idx)"
      "\<forall>j<nat ?idx. \<not> occurs_at ''/charts/'' p j" by auto
    have pos: "0 < ?idx" using f(1) not0 True by (cases "?idx = 0") auto
    have "nat ?idx < length p" using f(1) by (rule occurs_at_bound) simp
    then have "find (occurs_at ''/charts/'' p) [1..<length p] = Some (nat ?idx)"
      using f pos unfolding find_upt_Some by auto
    then show ?thesis using pos by simp
  next
    case False
    then have neg: "?idx < 0" by simp
    then have "find (occurs_at ''/charts/'' p) [1..<length p] = None"
      unfolding find_upt_None using Index_missing[OF neg] by blast
    then show ?thesis using neg by simp
  qed
qed

lemma find_slash:
  assumes p: "p \<noteq> []" "hd p \<noteq> CHR ''/''"
  shows "find (\<lambda>i. p ! i = CHR ''/'') [1..<length p] =
           (if strings_IndexByte p (CHR ''/'') > 0 then Some (nat (strings_IndexByte p (CHR ''/''))) else None)"
proof -
  let ?i = "strings_IndexByte p (CHR ''/'')"
  have not0: "p ! 0 \<noteq> CHR ''/''" using p by (cases p) auto
  show ?thesis
  proof (cases "0 \<le> ?i")
    case True
    from IndexByte_found[OF True] have f: "nat ?i < length p" "p ! nat ?i = CHR ''/''"
      "\<forall>j<nat ?i. p ! j \<noteq> CHR ''/''" by auto
    have pos: "0 < ?i" using f(2) not0 True by (cases "?i = 0") auto
    have "find (\<lambda>i. p ! i = CHR ''/'') [1..<length p] = Some (nat ?i)"
      using f pos unfolding find_upt_Some by auto
    then show ?thesis using pos by simp
  next
    case False
    then have neg: "?i < 0" by simp
    then have "CHR ''/'' \<notin> set p" by (rule IndexByte_missing)
    then have "p ! j \<noteq> CHR ''/''" if "j < length p" for j
      using that nth_mem[of j p] by metis
    then have "find (\<lambda>i. p ! i = CHR ''/'') [1..<length p] = None"
      unfolding find_upt_None by blast
    then show ?thesis using neg by simp
  qed
qed

subsection \<open>The loops of the two discoverers\<close>

lemma storage_step_inferred:
  "storage_step st o1 = (case inferred_name (Path o1) of None \<Rightarrow> st | Some n \<Rightarrow> set_put n st)"
proof -
  define p where "p = dropWhile (\<lambda>c. c = CHR ''/'') (Path o1)"
  show ?thesis
  proof (cases "p = []")
    case True
    then show ?thesis
      unfolding storage_step_def inferred_name_def TrimLeft_slash p_def[symmetric] by simp
  next
    case False
    then have hd: "hd p \<noteq> CHR ''/''" unfolding p_def by (rule dropWhile_slash_hd)
    have bound: "0 < strings_Index p ''/charts/'' \<Longrightarrow> take (nat (strings_Index p ''/charts/'')) p \<noteq> []"
      using False by simp
    show ?thesis
      unfolding storage_step_def inferred_name_def TrimLeft_slash p_def[symmetric]
        Let_def find_charts[OF False hd] find_slash[OF False hd]
      using False bound by simp
  qed
qed

lemma set_storage_step:
  "set (storage_step st o1) = set st \<union> {n. inferred_name (Path o1) = Some n}"
  by (auto simp: storage_step_inferred set_set_put split: option.splits)

lemma distinct_storage_step: "distinct st \<Longrightarrow> distinct (storage_step st o1)"
  by (auto simp: storage_step_inferred distinct_set_put split: option.splits)

lemma set_storage_loop: "set (storage_loop st objs) = set st \<union> inferred_names objs"
  by (induction objs arbitrary: st) (auto simp: set_storage_step inferred_names_def)

lemma distinct_storage_loop: "distinct st \<Longrightarrow> distinct (storage_loop st objs)"
  by (induction objs arbitrary: st) (auto simp: distinct_storage_step)

lemma fst_glob_loop:
  "fst (glob_loop E repo gs st) =
     (if \<exists>g \<in> set gs. fst (filepath_Glob E g) \<noteq> [] then set_put repo st else st)"
  by (induction gs) (auto simp: Let_def split: prod.splits)

lemma snd_glob_loop: "set (snd (glob_loop E repo gs st)) \<subseteq> CallGlob ` set gs"
  by (induction gs) (auto simp: Let_def split: prod.splits)

lemma fst_glob_loop2:
  "fst (glob_loop E (Name e)
      [filepath_Join [root, Name e, ''charts'', ''*.tgz''], filepath_Join [root, Name e, ''*.tgz'']] st) =
     (if qualifies E root (Name e) then set_put (Name e) st else st)"
  unfolding fst_glob_loop qualifies_def by simp

lemma set_entries_loop:
  "set (fst (entries_loop E root es st)) = set st \<union> qualifying_dirs E root es"
proof (induction es arbitrary: st)
  case Nil
  then show ?case by (simp add: qualifying_dirs_def)
next
  case (Cons e es)
  have q: "qualifying_dirs E root (e # es) =
      (if IsDir e \<and> qualifies E root (Name e) then {Name e} else {}) \<union> qualifying_dirs E root es"
    by (auto simp: qualifying_dirs_def)
  show ?case
  proof (cases "IsDir e")
    case False
    then show ?thesis using Cons.IH q by simp
  next
    case True
    obtain st1 cs1 where g: "glob_loop E (Name e)
      [filepath_Join [root, Name e, ''charts'', ''*.tgz''], filepath_Join [root, Name e, ''*.tgz'']] st = (st1, cs1)"
      by (cases "glob_loop E (Name e)
      [filepath_Join [root, Name e, ''charts'', ''*.tgz''], filepath_Join [root, Name e, ''*.tgz'']] st")
    have st1: "st1 = (if qualifies E root (Name e) then set_put (Name e) st else st)"
      using fst_glob_loop2[of E e root st] g by simp
    have "fst (entries_loop E root (e # es) st) = fst (entries_loop E root es st1)"
      using True g by (simp add: Let_def split: prod.splits)
    then show ?thesis using Cons.IH[of st1] q True st1 by (auto simp: set_set_put)
  qed
qed

lemma distinct_entries_loop:
  "distinct st \<Longrightarrow> distinct (fst (entries_loop E root es st))"
proof (induction es arbitrary: st)
  case Nil
  then show ?case by simp
next
  case (Cons e es)
  show ?case
  proof (cases "IsDir e")
    case False
    then show ?thesis using Cons by simp
  next
    case True
    let ?g = "glob_loop E (Name e)
      [filepath_Join [root, Name e, ''charts'', ''*.tgz''], filepath_Join [root, Name e, ''*.tgz'']] st"
    have "distinct (fst ?g)"
      using Cons.prems unfolding fst_glob_loop2 by (simp add: distinct_set_put)
    then have "distinct (fst (entries_loop E root es (fst ?g)))" by (rule Cons.IH)
    moreover have "fst (entries_loop E root (e # es) st) = fst (entries_loop E root es (fst ?g))"
      using True by (simp add: Let_def split: prod.splits)
    ultimately show ?thesis by simp
  qed
qed

lemma calls_entries_loop:
  "c \<in> set (snd (entries_loop E root es st)) \<Longrightarrow> \<exists>g. c = CallGlob g"
proof (induction es arbitrary: st)
  case Nil
  then show ?case by simp
next
  case (Cons e es)
  show ?case
  proof (cases "IsDir e")
    case False
    then show ?thesis using Cons by simp
  next
    case True
    let ?g = "glob_loop E (Name e)
      [filepath_Join [root, Name e, ''charts'', ''*.tgz''], filepath_Join [root, Name e, ''*.tgz'']] st"
    have "snd (entries_loop E root (e # es) st) = snd ?g @ snd (entries_loop E root es (fst ?g))"
      using True by (simp add: Let_def split: prod.splits)
    then have "c \<in> set (snd ?g) \<or> c \<in> set (snd (entries_loop E root es (fst ?g)))"
      using Cons.prems by simp
    then show ?thesis using Cons.IH snd_glob_loop[of E "Name e" _ st] by blast
  qed
qed

lemma glob_loop_cong:
  assumes "filepath_Glob E' = filepath_Glob E"
  shows "glob_loop E' repo gs st = glob_loop E repo gs st"
proof (induction gs)
  case Nil
  show ?case by simp
next
  case (Cons g gs)
  show ?case unfolding glob_loop.simps assms Cons.IH ..
qed

lemma entries_loop_cong:
  assumes "filepath_Glob E' = filepath_Glob E"
  shows "entries_loop E' root es st = entries_loop E root es st"
proof (induction es arbitrary: st)
  case Nil
  show ?case by simp
next
  case (Cons e es)
  show ?case unfolding entries_loop.simps glob_loop_cong[OF assms] Cons.IH ..
qed

lemma finite_qualifying_dirs: "finite (qualifying_dirs E root entries)"
  unfolding qualifying_dirs_def by simp

lemma finite_inferred_names: "finite (inferred_names objs)"
proof -
  have "inferred_names objs = set (storage_loop [] objs)" by (simp add: set_storage_loop)
  then show ?thesis by simp
qed

subsection \<open>The two discoverers\<close>

lemma entries_loop_empty_iff:
  "(fst (entries_loop E root es []) = []) = (qualifying_dirs E root es = {})"
  using set_entries_loop[of E root es "[]"] by (metis set_empty sup_bot.left_neutral empty_set)

lemma entries_loop_sorted:
  "sort_Strings (range_order cs (fst (entries_loop E root es []))) =
     sorted_list_of_set (qualifying_dirs E root es)"
  using distinct_entries_loop[of "[]" E root es] set_entries_loop[of E root es "[]"]
  by (simp add: sort_range_order sort_Strings_canonical)

text \<open>\<open>discoverReposLocalFS\<close> with the pairs of the loop taken apart.\<close>

lemma discoverReposLocalFS_unfold:
  "discoverReposLocalFS E =
     (if os_Getenv E ''STORAGE_LOCAL_ROOTDIR'' = []
      then (([], False), [CallGetenv ''STORAGE_LOCAL_ROOTDIR''])
      else
        (case os_Stat E (os_Getenv E ''STORAGE_LOCAL_ROOTDIR'') of
           Inl err \<Rightarrow>
             (([], False), [CallGetenv ''STORAGE_LOCAL_ROOTDIR'',
                            CallStat (os_Getenv E ''STORAGE_LOCAL_ROOTDIR'')])
         | Inr fi \<Rightarrow>
             if \<not> fi_IsDir fi
             then (([], False), [CallGetenv ''STORAGE_LOCAL_ROOTDIR'',
                                 CallStat (os_Getenv E ''STORAGE_LOCAL_ROOTDIR'')])
             else
               (case os_ReadDir E (os_Getenv E ''STORAGE_LOCAL_ROOTDIR'') of
                  Inl err \<Rightarrow>
                    (([], False), [CallGetenv ''STORAGE_LOCAL_ROOTDIR'',
                                   CallStat (os_Getenv E ''STORAGE_LOCAL_ROOTDIR''),
                                   CallReadDir (os_Getenv E ''STORAGE_LOCAL_ROOTDIR'')])
                | Inr entries \<Rightarrow>
                    (if qualifying_dirs E (os_Getenv E ''STORAGE_LOCAL_ROOTDIR'') entries = {}
                       then ([], False)
                       else (sorted_list_of_set
                               (qualifying_dirs E (os_Getenv E ''STORAGE_LOCAL_ROOTDIR'') entries),
                             True),
                     CallGetenv ''STORAGE_LOCAL_ROOTDIR'' #
                     CallStat (os_Getenv E ''STORAGE_LOCAL_ROOTDIR'') #
                     CallReadDir (os_Getenv E ''STORAGE_LOCAL_ROOTDIR'') #
                     snd (entries_loop E (os_Getenv E ''STORAGE_LOCAL_ROOTDIR'') entries [])))))"
proof -
  have tail: "(case entries_loop E root entries [] of
                (st, cs) \<Rightarrow>
                  let tr = pre @ cs
                  in if length st = 0 then (([], False), tr)
                     else let names = range_order (map_choices E) st
                          in ((sort_Strings names, True), tr)) =
              (if qualifying_dirs E root entries = {} then ([], False)
               else (sorted_list_of_set (qualifying_dirs E root entries), True),
               pre @ snd (entries_loop E root entries []))"
    for root entries pre
  proof (cases "entries_loop E root entries []")
    case (Pair st cs)
    have e: "(st = []) = (qualifying_dirs E root entries = {})"
      using entries_loop_empty_iff[of E root entries] Pair by simp
    have s: "sort_Strings (range_order (map_choices E) st) =
             sorted_list_of_set (qualifying_dirs E root entries)"
      using entries_loop_sorted[of "map_choices E" E root entries] Pair by simp
    show ?thesis unfolding Pair by (simp add: Let_def e s)
  qed
  show ?thesis
    unfolding discoverReposLocalFS_def Let_def tail[unfolded Let_def]
    by (simp split: sum.splits)
qed

lemma discoverReposLocalFS_result:
  "fst (discoverReposLocalFS E) =
     (let root = os_Getenv E ''STORAGE_LOCAL_ROOTDIR'' in
      if root = [] then ([], False)
      else
        (case os_Stat E root of
           Inl err \<Rightarrow> ([], False)
         | Inr fi \<Rightarrow>
             if \<not> fi_IsDir fi then ([], False)
             else
               (case os_ReadDir E root of
                  Inl err \<Rightarrow> ([], False)
                | Inr entries \<Rightarrow>
                    if qualifying_dirs E root entries = {} then ([], False)
                    else (sorted_list_of_set (qualifying_dirs E root entries), True))))"
  unfolding discoverReposLocalFS_unfold Let_def by (simp split: sum.splits)

lemma discoverReposLocalFS_calls:
  assumes "c \<in> set (snd (discoverReposLocalFS E))"
  shows "c \<noteq> CallListObjects p"
proof
  assume c: "c = CallListObjects p"
  have "CallListObjects p \<notin> set (snd (entries_loop E root es []))" for root es
    using calls_entries_loop[of "CallListObjects p" E root es "[]"] by auto
  then show False
    using assms unfolding c discoverReposLocalFS_unfold
    by (simp split: sum.splits if_splits)
qed

lemma discoverReposLocalFS_first_call:
  "\<exists>cs. snd (discoverReposLocalFS E) = CallGetenv ''STORAGE_LOCAL_ROOTDIR'' # cs"
  unfolding discoverReposLocalFS_unfold by (simp split: sum.splits)

lemma discoverReposFromStorage_result:
  "discoverReposFromStorage s E prefix =
     (case StorageBackend_ListObjects s prefix of
        Inl err \<Rightarrow> (Inl err, [CallListObjects prefix])
      | Inr objs \<Rightarrow> (Inr (sorted_list_of_set (inferred_names objs)), [CallListObjects prefix]))"
proof -
  have "sort_Strings (range_order (map_choices E) (storage_loop [] objs)) =
        sorted_list_of_set (inferred_names objs)" for objs
    using distinct_storage_loop[of "[]" objs] set_storage_loop[of "[]" objs]
    by (simp add: sort_range_order sort_Strings_canonical)
  then show ?thesis
    unfolding discoverReposFromStorage_def Let_def by (simp split: sum.splits)
qed

lemma listRepositoriesHandler_unfold:
  "listRepositoriesHandler s E =
     (if snd (fst (discoverReposLocalFS E))
      then (Response StatusOK (Names (fst (fst (discoverReposLocalFS E)))),
            snd (discoverReposLocalFS E))
      else
        (case StorageBackend_ListObjects s [] of
           Inl err \<Rightarrow>
             (Response StatusInternalServerError (ErrorObject (Error err)),
              snd (discoverReposLocalFS E) @ [CallListObjects []])
         | Inr objs \<Rightarrow>
             (Response StatusOK (Names (sorted_list_of_set (inferred_names objs))),
              snd (discoverReposLocalFS E) @ [CallListObjects []])))"
  unfolding listRepositoriesHandler_def listRepositories_def allowListRepos_def
    discoverReposFromStorage_result
  by (simp add: case_prod_unfold split: sum.splits)

lemma inferred_name_shape:
  assumes "inferred_name path = Some n"
  shows "n \<noteq> [] \<and> hd n \<noteq> CHR ''/'' \<and> (\<forall>i. \<not> occurs_at ''/charts/'' n i)"
proof -
  define p where "p = dropWhile (\<lambda>c. c = CHR ''/'') path"
  have ne: "p \<noteq> []"
    using assms unfolding inferred_name_def p_def[symmetric] by (auto simp: Let_def split: if_splits)
  then have hd: "hd p \<noteq> CHR ''/''" unfolding p_def by (rule dropWhile_slash_hd)
  have not0: "\<not> occurs_at ''/charts/'' p 0"
    using ne hd by (cases p) (auto simp: occurs_at_def)
  have p0: "p ! 0 \<noteq> CHR ''/''" using ne hd by (cases p) auto
  show ?thesis
  proof (cases "find (occurs_at ''/charts/'' p) [1..<length p]")
    case (Some i)
    then have n: "n = take i p"
      using assms ne unfolding inferred_name_def p_def[symmetric] by (simp add: Let_def)
    from Some have i: "1 \<le> i" "i < length p" "occurs_at ''/charts/'' p i"
      "\<forall>j. 1 \<le> j \<and> j < i \<longrightarrow> \<not> occurs_at ''/charts/'' p j"
      unfolding find_upt_Some by auto
    have "\<not> occurs_at ''/charts/'' n j" for j
    proof
      assume "occurs_at ''/charts/'' n j"
      then have o: "occurs_at ''/charts/'' p j \<and> j < i"
        unfolding n by (rule occurs_at_take) simp
      then have "j \<noteq> 0" using not0 by (cases "j = 0") simp_all
      then show False using o i(4) by auto
    qed
    moreover have "n \<noteq> []" using n i ne by simp
    moreover have "hd n = hd p" using n i by (simp add: hd_take)
    ultimately show ?thesis using hd by simp
  next
    case None
    then obtain i where s: "find (\<lambda>i. p ! i = CHR ''/'') [1..<length p] = Some i" and n: "n = take i p"
      using assms ne unfolding inferred_name_def p_def[symmetric]
      by (auto simp: Let_def split: option.splits)
    from s have i: "1 \<le> i" "i < length p" "\<forall>j. 1 \<le> j \<and> j < i \<longrightarrow> p ! j \<noteq> CHR ''/''"
      unfolding find_upt_Some by auto
    have noslash: "CHR ''/'' \<notin> set n"
    proof
      assume "CHR ''/'' \<in> set n"
      then obtain j where j: "j < length n" "n ! j = CHR ''/''" by (auto simp: in_set_conv_nth)
      then have "j < i" "p ! j = CHR ''/''" using n i by auto
      then show False using i(3) p0 by (cases "j = 0") auto
    qed
    have "\<not> occurs_at ''/charts/'' n j" for j
    proof
      assume "occurs_at ''/charts/'' n j"
      then obtain u v where "n = u @ ''/charts/'' @ v" by (auto simp: occurs_at_split)
      then have "CHR ''/'' \<in> set n" by simp
      then show False using noslash by simp
    qed
    moreover have "n \<noteq> []" using n i ne by simp
    moreover have "hd n = hd p" using n i by (simp add: hd_take)
    ultimately show ?thesis using hd by simp
  qed
qed

section \<open>The claims\<close>

text \<open>
  C1. For every object path that the storage listing returns, the Generic Object Discoverer
  strips the leading slashes, skips an empty path, and infers the Repository Name as the
  specification says: the prefix before \<^verbatim>\<open>/charts/\<close> when that stands at a position
  greater than zero, otherwise the first segment when a \<^verbatim>\<open>/\<close> stands at a position
  greater than zero, otherwise nothing. The names returned are exactly the names inferred
  from the listed objects. \<^verbatim>\<open>repoA/charts/webapp-0.1.0.tgz\<close> yields \<^verbatim>\<open>repoA\<close>,
  \<^verbatim>\<open>repoB/webapp-0.2.0.tgz\<close> yields \<^verbatim>\<open>repoB\<close> and \<^verbatim>\<open>justafile.tgz\<close> yields no
  name.
\<close>

theorem C1_generic_name_inference:
  "storage_step st o1 =
     (case inferred_name (Path o1) of None \<Rightarrow> st | Some n \<Rightarrow> set_put n st) \<and>
   (StorageBackend_ListObjects s prefix = Inr objs \<longrightarrow>
      fst (discoverReposFromStorage s E prefix) = Inr (sorted_list_of_set (inferred_names objs))) \<and>
   storage_step [] \<lparr>Path = ''repoA/charts/webapp-0.1.0.tgz''\<rparr> = [''repoA''] \<and>
   storage_step [] \<lparr>Path = ''repoB/webapp-0.2.0.tgz''\<rparr> = [''repoB''] \<and>
   storage_step [] \<lparr>Path = ''justafile.tgz''\<rparr> = []"
proof -
  have "storage_step [] \<lparr>Path = ''repoA/charts/webapp-0.1.0.tgz''\<rparr> = [''repoA'']"
    by code_simp
  moreover have "storage_step [] \<lparr>Path = ''repoB/webapp-0.2.0.tgz''\<rparr> = [''repoB'']"
    by code_simp
  moreover have "storage_step [] \<lparr>Path = ''justafile.tgz''\<rparr> = []"
    by code_simp
  moreover have "StorageBackend_ListObjects s prefix = Inr objs \<longrightarrow>
      fst (discoverReposFromStorage s E prefix) = Inr (sorted_list_of_set (inferred_names objs))"
    by (simp add: discoverReposFromStorage_result)
  ultimately show ?thesis using storage_step_inferred[of st o1] by blast
qed

theorem C1_generic_name_inference_witness:
  "StorageBackend_ListObjects object_server [] =
     Inr [\<lparr>Path = ''t2/b.tgz''\<rparr>, \<lparr>Path = ''t1/charts/a.tgz''\<rparr>,
          \<lparr>Path = ''noslash''\<rparr>, \<lparr>Path = ''/t1/charts/c.tgz''\<rparr>] \<and>
   fst (discoverReposFromStorage object_server seeded_env []) =
     Inr (sorted_list_of_set (inferred_names
       [\<lparr>Path = ''t2/b.tgz''\<rparr>, \<lparr>Path = ''t1/charts/a.tgz''\<rparr>,
        \<lparr>Path = ''noslash''\<rparr>, \<lparr>Path = ''/t1/charts/c.tgz''\<rparr>])) \<and>
   fst (discoverReposFromStorage object_server seeded_env []) = Inr [''t1'', ''t2'']"
proof -
  have h: "StorageBackend_ListObjects object_server [] =
     Inr [\<lparr>Path = ''t2/b.tgz''\<rparr>, \<lparr>Path = ''t1/charts/a.tgz''\<rparr>,
          \<lparr>Path = ''noslash''\<rparr>, \<lparr>Path = ''/t1/charts/c.tgz''\<rparr>]"
    by (simp add: object_server_def)
  have v: "fst (discoverReposFromStorage object_server seeded_env []) = Inr [''t1'', ''t2'']"
    by code_simp
  from C1_generic_name_inference[of _ _ object_server "[]" _ seeded_env] h v
  show ?thesis by blast
qed

text \<open>
  C2. The claim: a child directory \<open>d\<close> of the root is in the Local-Tree Discoverer's
  result exactly once if an archive lies under \<^verbatim>\<open>d/charts/\<close> or directly under
  \<^verbatim>\<open>d/\<close>, and is absent otherwise, so that every name returned has a directory with
  the layout. The code does not keep it where the name of a directory holds a character of
  the pattern syntax, because it joins the name into the pattern as it is and drops the
  error of \<^verbatim>\<open>filepath.Glob\<close>: on the store \<open>star_files\<close> the empty directory
  \<^verbatim>\<open>a*\<close> is returned, and on the store \<open>bracket_files\<close> the directory \<^verbatim>\<open>[x\<close>,
  which holds an archive, is not.
\<close>

theorem C2_directory_name_read_as_pattern:
  "fst (discoverReposLocalFS star_env) = ([''a*'', ''ab''], True) \<and>
   \<not> holds_archive star_files ''/r'' ''a*'' \<and>
   holds_archive star_files ''/r'' ''ab'' \<and>
   fst (listRepositoriesHandler s star_env) = Response 200 (Names [''a*'', ''ab'']) \<and>
   fst (discoverReposLocalFS bracket_env) = ([''ok''], True) \<and>
   holds_archive bracket_files ''/r'' ''[x'' \<and>
   holds_archive bracket_files ''/r'' ''ok'' \<and>
   fst (listRepositoriesHandler s bracket_env) = Response 200 (Names [''ok''])"
proof -
  have s1: "fst (discoverReposLocalFS star_env) = ([''a*'', ''ab''], True)"
    by code_simp
  have b1: "fst (discoverReposLocalFS bracket_env) = ([''ok''], True)"
    by code_simp
  have s2: "\<not> holds_archive star_files ''/r'' ''a*''" by code_simp
  have s3: "holds_archive star_files ''/r'' ''ab''" by code_simp
  have b2: "holds_archive bracket_files ''/r'' ''[x''" by code_simp
  have b3: "holds_archive bracket_files ''/r'' ''ok''" by code_simp
  have s4: "fst (listRepositoriesHandler s star_env) = Response 200 (Names [''a*'', ''ab''])"
    unfolding listRepositoriesHandler_unfold s1 by (simp add: StatusOK_def)
  have b4: "fst (listRepositoriesHandler s bracket_env) = Response 200 (Names [''ok''])"
    unfolding listRepositoriesHandler_unfold b1 by (simp add: StatusOK_def)
  show ?thesis using s1 s2 s3 s4 b1 b2 b3 b4 by blast
qed

text \<open>
  C3. When the Local-Tree Discoverer is applicable (its second result is true), the handler
  responds 200 with that discoverer's sorted names, and the request makes no
  \<^verbatim>\<open>ListObjects\<close> call.
\<close>

theorem C3_local_short_circuit:
  assumes "snd (fst (discoverReposLocalFS E))"
  shows "fst (listRepositoriesHandler s E) =
           Response 200 (Names (fst (fst (discoverReposLocalFS E)))) \<and>
         sorted (fst (fst (discoverReposLocalFS E))) \<and>
         CallListObjects p \<notin> set (snd (listRepositoriesHandler s E))"
proof -
  have r: "listRepositoriesHandler s E =
      (Response StatusOK (Names (fst (fst (discoverReposLocalFS E)))), snd (discoverReposLocalFS E))"
    unfolding listRepositoriesHandler_unfold using assms by simp
  have "sorted (fst (fst (discoverReposLocalFS E)))"
    unfolding discoverReposLocalFS_result Let_def by (simp split: sum.splits)
  moreover have "CallListObjects p \<notin> set (snd (discoverReposLocalFS E))"
    using discoverReposLocalFS_calls[of "CallListObjects p" E p] by blast
  ultimately show ?thesis unfolding r by (simp add: StatusOK_def)
qed

theorem C3_local_short_circuit_witness:
  "snd (fst (discoverReposLocalFS seeded_env)) \<and>
   fst (listRepositoriesHandler failing_server seeded_env) =
     Response 200 (Names [''repoA'', ''repoB'']) \<and>
   CallListObjects [] \<notin> set (snd (listRepositoriesHandler failing_server seeded_env))"
proof -
  have h: "snd (fst (discoverReposLocalFS seeded_env))" by code_simp
  have v: "fst (fst (discoverReposLocalFS seeded_env)) = [''repoA'', ''repoB'']" by code_simp
  from C3_local_short_circuit[OF h, of failing_server "[]"] h v show ?thesis by simp
qed



text \<open>
  C5. When \<^verbatim>\<open>ListObjects\<close> returns an error, the Generic Object Discoverer returns
  that same error after this one call, and a handler that made the call responds 500 with
  the error's message, having called \<^verbatim>\<open>ListObjects\<close> once.
\<close>

theorem C5_listing_error_propagates:
  assumes "StorageBackend_ListObjects s prefix = Inl err"
  shows "discoverReposFromStorage s E prefix = (Inl err, [CallListObjects prefix]) \<and>
         (CallListObjects prefix \<in> set (snd (listRepositoriesHandler s E)) \<longrightarrow>
            fst (listRepositoriesHandler s E) = Response 500 (ErrorObject (Error err)) \<and>
            filter (\<lambda>c. \<exists>p. c = CallListObjects p) (snd (listRepositoriesHandler s E)) =
              [CallListObjects prefix])"
proof -
  have a: "discoverReposFromStorage s E prefix = (Inl err, [CallListObjects prefix])"
    unfolding discoverReposFromStorage_def using assms by simp
  have nl: "filter (\<lambda>c. \<exists>p. c = CallListObjects p) (snd (discoverReposLocalFS E)) = []"
    using discoverReposLocalFS_calls[of _ E] by (auto simp: filter_empty_conv)
  have b: "fst (listRepositoriesHandler s E) = Response 500 (ErrorObject (Error err)) \<and>
            filter (\<lambda>c. \<exists>p. c = CallListObjects p) (snd (listRepositoriesHandler s E)) =
              [CallListObjects prefix]"
    if c: "CallListObjects prefix \<in> set (snd (listRepositoriesHandler s E))"
  proof -
    have notlocal: "CallListObjects prefix \<notin> set (snd (discoverReposLocalFS E))"
      using discoverReposLocalFS_calls[of "CallListObjects prefix" E prefix] by blast
    have ok: "\<not> snd (fst (discoverReposLocalFS E))"
    proof
      assume "snd (fst (discoverReposLocalFS E))"
      then have "snd (listRepositoriesHandler s E) = snd (discoverReposLocalFS E)"
        unfolding listRepositoriesHandler_unfold by simp
      with c notlocal show False by simp
    qed
    have p: "prefix = []"
      using c notlocal ok unfolding listRepositoriesHandler_unfold
      by (auto split: sum.splits)
    show ?thesis
      unfolding listRepositoriesHandler_unfold
      using ok assms p nl by (simp add: StatusInternalServerError_def)
  qed
  show ?thesis using a b by blast
qed


theorem C5_listing_error_propagates_witness:
  "StorageBackend_ListObjects failing_server [] = Inl (Err ''connection refused'') \<and>
   discoverReposFromStorage failing_server (seeded_env\<lparr>os_Getenv := (\<lambda>v. [])\<rparr>) [] =
     (Inl (Err ''connection refused''), [CallListObjects []]) \<and>
   CallListObjects [] \<in>
     set (snd (listRepositoriesHandler failing_server (seeded_env\<lparr>os_Getenv := (\<lambda>v. [])\<rparr>))) \<and>
   fst (listRepositoriesHandler failing_server (seeded_env\<lparr>os_Getenv := (\<lambda>v. [])\<rparr>)) =
     Response 500 (ErrorObject ''connection refused'') \<and>
   filter (\<lambda>c. \<exists>p. c = CallListObjects p)
     (snd (listRepositoriesHandler failing_server (seeded_env\<lparr>os_Getenv := (\<lambda>v. [])\<rparr>))) =
     [CallListObjects []]"
proof -
  let ?E = "seeded_env\<lparr>os_Getenv := (\<lambda>v. [])\<rparr>"
  have h: "StorageBackend_ListObjects failing_server [] = Inl (Err ''connection refused'')"
    by (simp add: failing_server_def)
  have c: "CallListObjects [] \<in> set (snd (listRepositoriesHandler failing_server ?E))"
    unfolding listRepositoriesHandler_def listRepositories_def allowListRepos_def
      discoverReposLocalFS_def discoverReposFromStorage_def
    by (simp add: failing_server_def)
  from C5_listing_error_propagates[OF h, of ?E] h c show ?thesis by simp
qed

text \<open>
  C6. When the Access Gate denies, the handler responds 403 with the body
  \<^verbatim>\<open>{"error": "listing repositories is disabled"}\<close> and makes no call at all: no
  file system access and no storage listing.
\<close>

theorem C6_denied_no_work:
  "listRepositories False s E =
     (Response 403 (ErrorObject ''listing repositories is disabled''), [])"
  by (simp add: listRepositories_def StatusForbidden_def)

theorem C6_denied_no_work_witness:
  "listRepositories False object_server seeded_env =
     (Response 403 (ErrorObject ''listing repositories is disabled''), [])"
  by (rule C6_denied_no_work)

text \<open>
  C7. For every input, the names returned by either discoverer are sorted and without
  duplicates; the order is the lexicographic order of the strings as byte sequences.
\<close>

theorem C7_results_sorted_distinct:
  "sorted (fst (fst (discoverReposLocalFS E))) \<and>
   distinct (fst (fst (discoverReposLocalFS E))) \<and>
   (fst (discoverReposFromStorage s E prefix) = Inr names \<longrightarrow>
      sorted names \<and> distinct names \<and>
      sorted_wrt (\<lambda>a b. (a, b) \<in> lexord {(u, v). (of_char u :: nat) < of_char v}) names)"
proof -
  have l: "sorted (fst (fst (discoverReposLocalFS E))) \<and>
           distinct (fst (fst (discoverReposLocalFS E)))"
    unfolding discoverReposLocalFS_result Let_def
    by (simp split: sum.splits)
  have g: "sorted names \<and> distinct names \<and>
      sorted_wrt (\<lambda>a b. (a, b) \<in> lexord {(u, v). (of_char u :: nat) < of_char v}) names"
    if "fst (discoverReposFromStorage s E prefix) = Inr names"
  proof -
    from that obtain objs where "names = sorted_list_of_set (inferred_names objs)"
      unfolding discoverReposFromStorage_result by (auto split: sum.splits)
    then have sd: "sorted names" "distinct names" by simp_all
    then have "sorted_wrt (<) names" by (simp add: strict_sorted_iff)
    moreover have "((<) :: string \<Rightarrow> string \<Rightarrow> bool) =
        (\<lambda>a b. (a, b) \<in> lexord {(u, v). (of_char u :: nat) < of_char v})"
      by (intro ext) (simp add: list_less_def less_char_def)
    ultimately have "sorted_wrt (\<lambda>a b. (a, b) \<in> lexord {(u, v). (of_char u :: nat) < of_char v}) names"
      by simp
    then show ?thesis using sd by simp
  qed
  show ?thesis using l g by blast
qed

theorem C7_results_sorted_distinct_witness:
  "fst (discoverReposFromStorage object_server seeded_env []) = Inr [''t1'', ''t2''] \<and>
   sorted [''t1'', ''t2''] \<and> distinct [''t1'', ''t2''] \<and>
   fst (fst (discoverReposLocalFS seeded_env)) = [''repoA'', ''repoB''] \<and>
   sorted (fst (fst (discoverReposLocalFS seeded_env))) \<and>
   distinct (fst (fst (discoverReposLocalFS seeded_env)))"
proof -
  have h: "fst (discoverReposFromStorage object_server seeded_env []) = Inr [''t1'', ''t2'']"
    by code_simp
  have v: "fst (fst (discoverReposLocalFS seeded_env)) = [''repoA'', ''repoB'']"
    by code_simp
  from C7_results_sorted_distinct[where E = seeded_env and s = object_server
      and prefix = "[]" and names = "[''t1'', ''t2'']"] h v
  show ?thesis by blast
qed

text \<open>
  C8. Against an unchanged store a discoverer returns the same result and makes the same
  calls, whatever order the runtime chooses for the range over the set of names.
\<close>

theorem C8_discovery_deterministic:
  "discoverReposFromStorage s (E\<lparr>map_choices := cs\<rparr>) prefix = discoverReposFromStorage s E prefix \<and>
   discoverReposLocalFS (E\<lparr>map_choices := cs\<rparr>) = discoverReposLocalFS E"
proof -
  have q: "qualifying_dirs (E\<lparr>map_choices := cs\<rparr>) root es = qualifying_dirs E root es" for root es
    by (simp add: qualifying_dirs_def qualifies_def)
  have e: "entries_loop (E\<lparr>map_choices := cs\<rparr>) root es st = entries_loop E root es st" for root es st
    by (rule entries_loop_cong) simp
  have "discoverReposLocalFS (E\<lparr>map_choices := cs\<rparr>) = discoverReposLocalFS E"
    unfolding discoverReposLocalFS_unfold q e by (simp split: sum.splits)
  moreover have "discoverReposFromStorage s (E\<lparr>map_choices := cs\<rparr>) prefix =
                 discoverReposFromStorage s E prefix"
    unfolding discoverReposFromStorage_result ..
  ultimately show ?thesis by simp
qed

theorem C8_discovery_deterministic_witness:
  "discoverReposFromStorage object_server (seeded_env\<lparr>map_choices := [0, 7, 3]\<rparr>) [] =
     discoverReposFromStorage object_server seeded_env [] \<and>
   discoverReposLocalFS (seeded_env\<lparr>map_choices := [0, 7, 3]\<rparr>) = discoverReposLocalFS seeded_env \<and>
   range_order [0, 7, 3] [''repoA'', ''repoB''] \<noteq> range_order (map_choices seeded_env) [''repoA'', ''repoB'']"
proof -
  have "range_order [0, 7, 3] [''repoA'', ''repoB''] \<noteq>
        range_order (map_choices seeded_env) [''repoA'', ''repoB'']"
    by (simp add: seeded_env_def)
  with C8_discovery_deterministic[where s = object_server and E = seeded_env
      and cs = "[0, 7, 3]" and prefix = "[]"]
  show ?thesis by blast
qed

text \<open>
  C9. \<open>allowListRepos\<close> is constantly true: the handler is its body with the gate
  open, it never answers 403, discovery always starts (the first call reads
  \<^verbatim>\<open>STORAGE_LOCAL_ROOTDIR\<close>), and the value of the environment variable
  \<^verbatim>\<open>ENABLE_LIST_REPOS\<close> changes nothing.
\<close>

theorem C9_gate_always_open:
  "allowListRepos s \<and>
   listRepositoriesHandler s E = listRepositories True s E \<and>
   status (fst (listRepositoriesHandler s E)) \<noteq> 403 \<and>
   (\<exists>cs. snd (listRepositoriesHandler s E) = CallGetenv ''STORAGE_LOCAL_ROOTDIR'' # cs) \<and>
   listRepositoriesHandler s (E\<lparr>os_Getenv := (os_Getenv E)(''ENABLE_LIST_REPOS'' := v)\<rparr>) =
     listRepositoriesHandler s E"
proof -
  let ?E' = "E\<lparr>os_Getenv := (os_Getenv E)(''ENABLE_LIST_REPOS'' := v)\<rparr>"
  have a: "allowListRepos s" by (simp add: allowListRepos_def)
  have t: "listRepositoriesHandler s E = listRepositories True s E"
    by (simp add: listRepositoriesHandler_def allowListRepos_def)
  have b: "status (fst (listRepositoriesHandler s E)) \<noteq> 403"
    unfolding listRepositoriesHandler_unfold
    by (simp add: StatusOK_def StatusInternalServerError_def split: sum.splits)
  obtain cs where cs: "snd (discoverReposLocalFS E) = CallGetenv ''STORAGE_LOCAL_ROOTDIR'' # cs"
    using discoverReposLocalFS_first_call by blast
  have c: "\<exists>cs. snd (listRepositoriesHandler s E) = CallGetenv ''STORAGE_LOCAL_ROOTDIR'' # cs"
    unfolding listRepositoriesHandler_unfold cs by (simp split: sum.splits)
  have q: "qualifying_dirs ?E' root es = qualifying_dirs E root es" for root es
    by (simp add: qualifying_dirs_def qualifies_def)
  have e: "entries_loop ?E' root es st = entries_loop E root es st" for root es st
    by (rule entries_loop_cong) simp
  have l: "discoverReposLocalFS ?E' = discoverReposLocalFS E"
    unfolding discoverReposLocalFS_unfold q e by (simp split: sum.splits)
  have d: "listRepositoriesHandler s ?E' = listRepositoriesHandler s E"
    unfolding listRepositoriesHandler_unfold l ..
  show ?thesis using a t b c d by blast
qed

theorem C9_gate_always_open_witness:
  "allowListRepos failing_server \<and>
   listRepositoriesHandler failing_server
     (seeded_env\<lparr>os_Getenv := (os_Getenv seeded_env)(''ENABLE_LIST_REPOS'' := ''false'')\<rparr>) =
     listRepositoriesHandler failing_server seeded_env \<and>
   fst (listRepositoriesHandler failing_server seeded_env) =
     Response 200 (Names [''repoA'', ''repoB''])"
proof -
  have "fst (listRepositoriesHandler failing_server seeded_env) =
     Response 200 (Names [''repoA'', ''repoB''])"
    by code_simp
  with C9_gate_always_open[where s = failing_server and E = seeded_env and v = "''false''"] show ?thesis by blast
qed

text \<open>
  C10. Every Repository Name that the Generic Object Discoverer returns is a non-empty
  string that does not start with \<^verbatim>\<open>/\<close> and does not contain \<^verbatim>\<open>/charts/\<close>.
\<close>

theorem C10_generic_names_wellformed:
  assumes "fst (discoverReposFromStorage s E prefix) = Inr names" and "n \<in> set names"
  shows "n \<noteq> [] \<and> hd n \<noteq> CHR ''/'' \<and> (\<nexists>u v. n = u @ ''/charts/'' @ v)"
proof -
  from assms(1) obtain objs where "names = sorted_list_of_set (inferred_names objs)"
    unfolding discoverReposFromStorage_result by (auto split: sum.splits)
  with assms(2) have "n \<in> inferred_names objs"
    by (simp add: finite_inferred_names)
  then obtain path where "inferred_name path = Some n" by (auto simp: inferred_names_def)
  then have "n \<noteq> [] \<and> hd n \<noteq> CHR ''/'' \<and> (\<forall>i. \<not> occurs_at ''/charts/'' n i)"
    by (rule inferred_name_shape)
  then show ?thesis by (auto simp: occurs_at_split)
qed

theorem C10_generic_names_wellformed_witness:
  "fst (discoverReposFromStorage object_server seeded_env []) = Inr [''t1'', ''t2''] \<and>
   ''t1'' \<in> set [''t1'', ''t2''] \<and>
   ''t1'' \<noteq> [] \<and> hd ''t1'' \<noteq> CHR ''/'' \<and> (\<nexists>u v. ''t1'' = u @ ''/charts/'' @ v)"
proof -
  have h: "fst (discoverReposFromStorage object_server seeded_env []) = Inr [''t1'', ''t2'']"
    by code_simp
  have m: "''t1'' \<in> set [''t1'', ''t2'']" by simp
  from C10_generic_names_wellformed[OF h m] h m show ?thesis by blast
qed

end
